theory Spec2Isabelle
  imports Main "HOL-Library.Word" "HOL-Library.Signed_Division" "HOL-Library.Multiset"
begin

section \<open>Data model of package fastip (ping.go)\<close>

text \<open>
  Go's \<open>uint\<close> is taken at its 64-bit width, \<open>uint16\<close> and \<open>int64\<close> are words of
  their widths.  \<open>netip.Addr\<close> belongs to the standard library and stays a type
  parameter \<open>'a\<close>; \<open>netip.AddrPort\<close> is the pair of an address and a 16-bit port.
\<close>

type_synonym uint = "64 word"
type_synonym uint16 = "16 word"
type_synonym int64 = "64 word"

type_synonym 'a AddrPort = "'a \<times> uint16"

definition AddrPortFrom :: "'a \<Rightarrow> uint16 \<Rightarrow> 'a AddrPort" where
  "AddrPortFrom ip port = (ip, port)"

definition Addr :: "'a AddrPort \<Rightarrow> 'a" where
  "Addr ap = fst ap"

text \<open>\<open>pingResult\<close>: the result of dialing the address.\<close>

record 'a pingResult =
  addrPort :: "'a AddrPort"
  latency :: uint
  success :: bool

text \<open>
  The cache entry is declared outside ping.go; the code reads its fields \<open>status\<close>
  (0 means success) and \<open>latencyMsec\<close>.
\<close>

record cacheEntry =
  status :: int
  latencyMsec :: uint

text \<open>
  The receiver \<open>FastestAddr\<close>.  Its method \<open>cacheFind\<close> lives outside ping.go and is taken
  as a parameter.  The cache is shared with the goroutines that write it (lines 152 and
  161), those of the running call among them, so two lookups of one scan need not
  agree, not even on the same address: \<open>cacheFind f i ip\<close> is what the call
  \<open>f.cacheFind(ip)\<close> of iteration \<open>i\<close> of the scan returns, and nothing is assumed
  about how the lookups of different iterations are related.  \<open>pingPorts\<close> is the
  configured list of ports.
\<close>

record 'a FastestAddr =
  cacheFind :: "nat \<Rightarrow> 'a \<Rightarrow> cacheEntry option"
  pingPorts :: "uint list"

section \<open>schedulePings\<close>

text \<open>
  The state of the loop of \<open>schedulePings\<close>: the two named results \<open>pr\<close> and
  \<open>scheduled\<close>, and, as explicit effects, the goroutines started by \<open>go f.pingDoTCP\<close>
  (their address-port argument, in start order) and the addresses handed to \<open>cacheFind\<close>.
\<close>

record 'a sched =
  pr :: "'a pingResult option"
  scheduled :: bool
  started :: "'a AddrPort list"
  looked :: "'a list"

definition sched_init :: "'a sched" where
  "sched_init = \<lparr>pr = None, scheduled = False, started = [], looked = []\<rparr>"

text \<open>The body of \<open>for _, ip := range ips\<close>: iteration \<open>i\<close>, on address \<open>ip\<close>.\<close>

definition schedule_one :: "'a FastestAddr \<Rightarrow> nat \<Rightarrow> 'a \<Rightarrow> 'a sched \<Rightarrow> 'a sched" where
  "schedule_one f i ip s =
     (case cacheFind f i ip of
        None \<Rightarrow>
          s\<lparr>scheduled := True,
            started := started s @ map (\<lambda>port. AddrPortFrom ip (ucast port)) (pingPorts f),
            looked := looked s @ [ip]\<rparr>
      | Some cached \<Rightarrow>
          if status cached = 0 \<and>
             (case pr s of None \<Rightarrow> True | Some p \<Rightarrow> latencyMsec cached < latency p)
          then s\<lparr>pr := Some \<lparr>addrPort = AddrPortFrom ip 0,
                              latency = latencyMsec cached,
                              success = True\<rparr>,
                 looked := looked s @ [ip]\<rparr>
          else s\<lparr>looked := looked s @ [ip]\<rparr>)"

text \<open>The loop, from iteration \<open>i\<close> on, over the addresses still to come.\<close>

fun schedulePings_loop ::
  "'a FastestAddr \<Rightarrow> nat \<Rightarrow> 'a list \<Rightarrow> 'a sched \<Rightarrow> 'a sched" where
  "schedulePings_loop f i [] s = s"
| "schedulePings_loop f i (ip # ips) s =
     schedulePings_loop f (Suc i) ips (schedule_one f i ip s)"

definition schedulePings :: "'a FastestAddr \<Rightarrow> 'a list \<Rightarrow> 'a sched" where
  "schedulePings f ips = schedulePings_loop f 0 ips sched_init"

section \<open>firstSuccessRes\<close>

text \<open>
  What one round of the \<open>select\<close> of \<open>firstSuccessRes\<close> can take: a result from
  \<open>resCh\<close>, or the tick of \<open>time.After(f.PingWaitTimeout)\<close>.  The function is run on the
  sequence of events the \<open>select\<close> takes; a sequence that ends before the loop returns
  leaves it waiting.
\<close>

datatype 'a event = Recv "'a pingResult" | After

datatype 'a outcome = Waiting | Returned "'a pingResult option"

fun firstSuccessRes :: "'a event list \<Rightarrow> 'a outcome" where
  "firstSuccessRes [] = Waiting"
| "firstSuccessRes (Recv res # evs) =
     (if \<not> success res then firstSuccessRes evs else Returned (Some res))"
| "firstSuccessRes (After # evs) = Returned None"

section \<open>pingAll\<close>

text \<open>
  A call of \<open>pingAll\<close>: what it returns, the goroutines it started, the cache lookups it
  made, the capacity of \<open>resCh\<close> when the channel was made, and whether it called
  \<open>firstSuccessRes\<close>.
\<close>

record 'a call =
  ret :: "'a outcome"
  goroutines :: "'a AddrPort list"
  lookups :: "'a list"
  resChCap :: "nat option"
  waited :: bool

definition pingAll :: "'a FastestAddr \<Rightarrow> 'a list \<Rightarrow> 'a event list \<Rightarrow> 'a call" where
  "pingAll f ips evs =
     (case ips of
        [] \<Rightarrow> \<lparr>ret = Returned None, goroutines = [], lookups = [],
               resChCap = None, waited = False\<rparr>
      | [ip0] \<Rightarrow> \<lparr>ret = Returned (Some \<lparr>addrPort = AddrPortFrom ip0 0,
                                         latency = 0, success = True\<rparr>),
                  goroutines = [], lookups = [], resChCap = None, waited = False\<rparr>
      | _ \<Rightarrow>
          (let ipN = length ips;
               cap = ipN * length (pingPorts f);
               s = schedulePings f ips
           in if \<not> scheduled s
              then \<lparr>ret = Returned (pr s), goroutines = started s, lookups = looked s,
                    resChCap = Some cap, waited = False\<rparr>
              else \<lparr>ret =
                      (case firstSuccessRes evs of
                         Waiting \<Rightarrow> Waiting
                       | Returned None \<Rightarrow> Returned (pr s)
                       | Returned (Some res) \<Rightarrow>
                           (case pr s of
                              None \<Rightarrow> Returned (Some res)
                            | Some p \<Rightarrow>
                                if latency res \<le> latency p then Returned (Some res)
                                else Returned (Some p))),
                    goroutines = started s, lookups = looked s,
                    resChCap = Some cap, waited = True\<rparr>))"

section \<open>pingDoTCP\<close>

text \<open>
  \<open>time.Duration\<close> is an \<open>int64\<close> count of nanoseconds, and \<open>Duration.Milliseconds\<close>
  divides it by \<open>1e6\<close> with Go's integer division, which truncates towards zero.
\<close>

definition Milliseconds :: "int64 \<Rightarrow> int64" where
  "Milliseconds d = word_of_int (sint d sdiv 1000000)"

text \<open>
  What a probe worker does, in program order: the dial, the close of a connection
  that was opened, the send on \<open>resCh\<close>, and the call of \<open>cacheAddSuccessful\<close> or
  \<open>cacheAddFailure\<close>.
\<close>

datatype 'a effect =
    Dial "'a AddrPort"
  | Close
  | Send "'a pingResult"
  | CacheAddSuccessful 'a uint
  | CacheAddFailure 'a

text \<open>
  \<open>pingDoTCP\<close> on the outcome of its dial: \<open>dialOk\<close> is \<open>err == nil\<close>, \<open>elapsed\<close> is
  \<open>time.Since(start)\<close>.  \<open>Unmap\<close> is \<open>netip.Addr.Unmap\<close> of the standard library, taken
  as a parameter.  The conversion \<open>uint(...)\<close> of an \<open>int64\<close> keeps the 64 bits.
\<close>

definition pingDoTCP ::
  "('a \<Rightarrow> 'a) \<Rightarrow> 'a AddrPort \<Rightarrow> bool \<Rightarrow> int64 \<Rightarrow> 'a effect list" where
  "pingDoTCP Unmap ap dialOk elapsed =
     (let success' = dialOk;
          latency' = Milliseconds elapsed;
          addr = Unmap (Addr ap)
      in [Dial ap] @
         (if success' then [Close] else []) @
         [Send \<lparr>addrPort = ap, latency = latency', success = success'\<rparr>] @
         [if success' then CacheAddSuccessful addr latency' else CacheAddFailure addr])"

section \<open>The goroutines of one call and the channel\<close>

text \<open>
  The state shared by the goroutines of one call of \<open>pingAll\<close>: the buffer of \<open>resCh\<close>,
  for each probe worker the effects it has still to perform, the cache updates made
  so far, and whether \<open>firstSuccessRes\<close> is still in its loop.
\<close>

record 'a sys =
  resCh :: "'a pingResult list"
  procs :: "'a effect list list"
  cacheLog :: "'a effect list"
  listening :: bool

text \<open>
  A send on a buffered channel goes through when the buffer has room; every other
  effect of a worker is never held back.
\<close>

fun can_run :: "nat \<Rightarrow> 'a sys \<Rightarrow> 'a effect \<Rightarrow> bool" where
  "can_run cap s (Send r) = (length (resCh s) < cap)"
| "can_run cap s e = True"

fun perform :: "'a effect \<Rightarrow> 'a sys \<Rightarrow> 'a sys" where
  "perform (Send r) s = s\<lparr>resCh := resCh s @ [r]\<rparr>"
| "perform (CacheAddSuccessful a l) s = s\<lparr>cacheLog := cacheLog s @ [CacheAddSuccessful a l]\<rparr>"
| "perform (CacheAddFailure a) s = s\<lparr>cacheLog := cacheLog s @ [CacheAddFailure a]\<rparr>"
| "perform e s = s"

text \<open>
  The steps of the system, for a channel of capacity \<open>cap\<close>.  A worker performs its
  next effect.  The \<open>select\<close> of \<open>firstSuccessRes\<close> takes a result (and leaves the loop
  when it is a success), or takes the tick of the timer and leaves the loop.
\<close>

inductive worker_step :: "nat \<Rightarrow> 'a sys \<Rightarrow> 'a sys \<Rightarrow> bool" for cap :: nat where
  run:
    "i < length (procs s) \<Longrightarrow> procs s ! i = e # rest \<Longrightarrow> can_run cap s e \<Longrightarrow>
     worker_step cap s ((perform e s)\<lparr>procs := (procs s)[i := rest]\<rparr>)"

inductive arbiter_step :: "'a sys \<Rightarrow> 'a sys \<Rightarrow> bool" where
  recv:
    "listening s \<Longrightarrow> resCh s = r # rs \<Longrightarrow>
     arbiter_step s (s\<lparr>resCh := rs, listening := \<not> success r\<rparr>)"
| timeout:
    "listening s \<Longrightarrow> arbiter_step s (s\<lparr>listening := False\<rparr>)"

definition step :: "nat \<Rightarrow> 'a sys \<Rightarrow> 'a sys \<Rightarrow> bool" where
  "step cap s s' = (worker_step cap s s' \<or> arbiter_step s s')"

definition reachable :: "nat \<Rightarrow> 'a sys \<Rightarrow> 'a sys \<Rightarrow> bool" where
  "reachable cap s0 s = (step cap)\<^sup>*\<^sup>* s0 s"

text \<open>What the workers can reach by themselves, the arbiter taking no step.\<close>

definition workers_reach :: "nat \<Rightarrow> 'a sys \<Rightarrow> 'a sys \<Rightarrow> bool" where
  "workers_reach cap s s' = (worker_step cap)\<^sup>*\<^sup>* s s'"

text \<open>A worker is blocked when it has an effect to perform and cannot perform it.\<close>

definition blocked :: "nat \<Rightarrow> 'a sys \<Rightarrow> nat \<Rightarrow> bool" where
  "blocked cap s i =
     (i < length (procs s) \<and>
      (case procs s ! i of [] \<Rightarrow> False | e # rest \<Rightarrow> \<not> can_run cap s e))"

text \<open>
  The system a call of \<open>pingAll\<close> sets up: \<open>resCh\<close> is empty, every goroutine the call
  started is at the beginning of \<open>pingDoTCP\<close>, and \<open>firstSuccessRes\<close> is about to
  listen.  \<open>dial i\<close> is the outcome of the dial of the \<open>i\<close>-th goroutine.  (A goroutine
  may run before the later ones are started; the states this gives are among those
  reachable from here.  What it then writes to the cache a later lookup of the scan may
  find: the lookups of the scan being left free, the scan of every such run is among
  those of \<open>schedulePings\<close>.)
\<close>

definition worker_progs ::
  "('a \<Rightarrow> 'a) \<Rightarrow> (nat \<Rightarrow> bool \<times> int64) \<Rightarrow> 'a AddrPort list \<Rightarrow> 'a effect list list" where
  "worker_progs Unmap dial aps =
     map (\<lambda>(i, ap). pingDoTCP Unmap ap (fst (dial i)) (snd (dial i))) (enumerate 0 aps)"

definition sys_init ::
  "('a \<Rightarrow> 'a) \<Rightarrow> (nat \<Rightarrow> bool \<times> int64) \<Rightarrow> 'a call \<Rightarrow> 'a sys" where
  "sys_init Unmap dial c =
     \<lparr>resCh = [], procs = worker_progs Unmap dial (goroutines c),
      cacheLog = [], listening = True\<rparr>"

definition capacity :: "'a call \<Rightarrow> nat" where
  "capacity c = (case resChCap c of None \<Rightarrow> 0 | Some n \<Rightarrow> n)"

text \<open>The sends and the cache updates that a list of effects holds.\<close>

fun is_send :: "'a effect \<Rightarrow> bool" where
  "is_send (Send r) = True"
| "is_send e = False"

fun is_cache :: "'a effect \<Rightarrow> bool" where
  "is_cache (CacheAddSuccessful a l) = True"
| "is_cache (CacheAddFailure a) = True"
| "is_cache e = False"

text \<open>Every worker has run to the end of \<open>pingDoTCP\<close>.\<close>

definition finished :: "'a sys \<Rightarrow> bool" where
  "finished s = list_all (\<lambda>p. p = []) (procs s)"

text \<open>The cache update of the \<open>i\<close>-th goroutine, as a function of the outcome of its dial.\<close>

definition cache_effect_of ::
  "('a \<Rightarrow> 'a) \<Rightarrow> (nat \<Rightarrow> bool \<times> int64) \<Rightarrow> nat \<times> 'a AddrPort \<Rightarrow> 'a effect" where
  "cache_effect_of Unmap dial =
     (\<lambda>(i, ap). if fst (dial i)
               then CacheAddSuccessful (Unmap (Addr ap)) (Milliseconds (snd (dial i)))
               else CacheAddFailure (Unmap (Addr ap)))"

text \<open>
  The invariant of the channel: the results in the buffer and the sends still ahead
  fit into the capacity together, and every cache update is either made or still ahead.
\<close>

definition chan_inv :: "nat \<Rightarrow> 'a effect multiset \<Rightarrow> 'a sys \<Rightarrow> bool" where
  "chan_inv cap C s =
     (length (resCh s) + length (filter is_send (concat (procs s))) \<le> cap \<and>
      mset (cacheLog s) + mset (filter is_cache (concat (procs s))) = C)"

section \<open>Notions of the specification\<close>

text \<open>The probes iteration \<open>i\<close> starts for its address: one per configured port when
  its lookup finds no entry, none otherwise.\<close>

definition probes_for :: "'a FastestAddr \<Rightarrow> nat \<Rightarrow> 'a \<Rightarrow> 'a AddrPort list" where
  "probes_for f i ip =
     (case cacheFind f i ip of
        None \<Rightarrow> map (\<lambda>port. AddrPortFrom ip (ucast port)) (pingPorts f)
      | Some cached \<Rightarrow> [])"

text \<open>The lookup of iteration \<open>i\<close> returns an entry with success status.\<close>

definition usable :: "'a FastestAddr \<Rightarrow> nat \<Rightarrow> 'a \<Rightarrow> bool" where
  "usable f i ip =
     (case cacheFind f i ip of None \<Rightarrow> False | Some cached \<Rightarrow> status cached = 0)"

definition cachedLatency :: "'a FastestAddr \<Rightarrow> nat \<Rightarrow> 'a \<Rightarrow> uint" where
  "cachedLatency f i ip =
     (case cacheFind f i ip of None \<Rightarrow> 0 | Some cached \<Rightarrow> latencyMsec cached)"

text \<open>The candidate the specification derives from the entry an iteration has found.\<close>

definition candidate_of :: "'a FastestAddr \<Rightarrow> nat \<Rightarrow> 'a \<Rightarrow> 'a pingResult" where
  "candidate_of f i ip =
     \<lparr>addrPort = AddrPortFrom ip 0, latency = cachedLatency f i ip, success = True\<rparr>"

text \<open>
  Position \<open>i\<close> holds the best cached candidate of the scan: its lookup found a success
  entry, no lookup of the scan found a success entry with a lower latency, and every
  such lookup before it found a strictly higher one.
\<close>

definition best_at :: "'a FastestAddr \<Rightarrow> 'a list \<Rightarrow> nat \<Rightarrow> bool" where
  "best_at f ips i =
     (i < length ips \<and> usable f i (ips ! i) \<and>
      (\<forall>j<length ips. usable f j (ips ! j) \<longrightarrow>
         cachedLatency f i (ips ! i) \<le> cachedLatency f j (ips ! j)) \<and>
      (\<forall>j<i. usable f j (ips ! j) \<longrightarrow>
         cachedLatency f i (ips ! i) < cachedLatency f j (ips ! j)))"

text \<open>
  The final decision of the specification: the outcome of the arbiter merged with the
  cached candidate, the live result kept when it is at most as slow.
\<close>

definition merge_live :: "'a outcome \<Rightarrow> 'a pingResult option \<Rightarrow> 'a outcome" where
  "merge_live live cand =
     (case live of
        Waiting \<Rightarrow> Waiting
      | Returned None \<Rightarrow> Returned cand
      | Returned (Some res) \<Rightarrow>
          (case cand of
             None \<Rightarrow> Returned (Some res)
           | Some p \<Rightarrow>
               if latency res \<le> latency p then Returned (Some res) else Returned (Some p)))"

section \<open>Configurations to run the functions on\<close>

text \<open>
  Addresses are numbers here.  In the first configuration the cache does not change
  during the scan: address 1 is cached as a success at 50 ms, 4 and 5 at 20 ms, address
  3 is cached as a failure, every other address is not in the cache.  The ports are 80
  and 443.
\<close>

definition fa_example :: "nat FastestAddr" where
  "fa_example =
     \<lparr>cacheFind = (\<lambda>i. [1 \<mapsto> \<lparr>status = 0, latencyMsec = 50\<rparr>,
                        3 \<mapsto> \<lparr>status = 1, latencyMsec = 0\<rparr>,
                        4 \<mapsto> \<lparr>status = 0, latencyMsec = 20\<rparr>,
                        5 \<mapsto> \<lparr>status = 0, latencyMsec = 20\<rparr>]),
      pingPorts = [80, 443]\<rparr>"

text \<open>
  In the second the cache is empty when the scan begins, and before the third lookup a
  worker has recorded address 16 as a success at 3 ms.  The only port is 80.
\<close>

definition fa_racing :: "nat FastestAddr" where
  "fa_racing =
     \<lparr>cacheFind = (\<lambda>i. if i < 2 then Map.empty else [16 \<mapsto> \<lparr>status = 0, latencyMsec = 3\<rparr>]),
      pingPorts = [80]\<rparr>"

text \<open>
  The dials of a call on addresses 1 and 2: address 2 is not in the cache and gets a
  probe on each port.  The dial to port 80 fails after 4 s, the dial to port 443
  succeeds after 30.999999 ms.
\<close>

definition dial_example :: "nat \<Rightarrow> bool \<times> int64" where
  "dial_example i = (if i = 0 then (False, 4000000000) else (True, 30999999))"

text \<open>
  A state of that call: the arbiter has timed out, the result of the failed dial lies
  unread in the channel, and the second worker is about to send.
\<close>

definition sys_example :: "nat sys" where
  "sys_example =
     \<lparr>resCh = [\<lparr>addrPort = (2, 80), latency = 4000, success = False\<rparr>],
      procs = [[CacheAddFailure 2],
               [Send \<lparr>addrPort = (2, 443), latency = 30, success = True\<rparr>,
                CacheAddSuccessful 2 30]],
      cacheLog = [], listening = False\<rparr>"

section \<open>The loop of schedulePings\<close>

lemma loop_append:
  "schedulePings_loop f i (xs @ ys) s =
     schedulePings_loop f (i + length xs) ys (schedulePings_loop f i xs s)"
  by (induction xs arbitrary: i s) simp_all

lemma schedulePings_Nil: "schedulePings f [] = sched_init"
  by (simp add: schedulePings_def)

lemma schedulePings_snoc:
  "schedulePings f (xs @ [ip]) = schedule_one f (length xs) ip (schedulePings f xs)"
  by (simp add: schedulePings_def loop_append)

lemmas sched_unfold = schedulePings_Nil sched_init_def schedulePings_snoc schedule_one_def

lemma started_schedulePings:
  "started (schedulePings f ips) =
     concat (map (\<lambda>(i, ip). probes_for f i ip) (enumerate 0 ips))"
  by (induction ips rule: rev_induct)
     (auto simp: sched_unfold probes_for_def enumerate_append_eq split: option.splits)

lemma started_iff:
  "ap \<in> set (started (schedulePings f ips)) \<longleftrightarrow>
     (\<exists>i<length ips. ap \<in> set (probes_for f i (ips ! i)))"
proof (induction ips rule: rev_induct)
  case Nil
  then show ?case by (simp add: sched_unfold)
next
  case (snoc ip ips)
  have "started (schedulePings f (ips @ [ip])) =
      started (schedulePings f ips) @ probes_for f (length ips) ip"
    by (simp add: sched_unfold probes_for_def split: option.splits)
  then show ?case
    using snoc by (auto simp: nth_append less_Suc_eq)
qed

lemma scheduled_schedulePings:
  "scheduled (schedulePings f ips) = (\<exists>i<length ips. cacheFind f i (ips ! i) = None)"
proof (induction ips rule: rev_induct)
  case Nil
  then show ?case by (simp add: sched_unfold)
next
  case (snoc ip ips)
  have "scheduled (schedulePings f (ips @ [ip])) =
      (scheduled (schedulePings f ips) \<or> cacheFind f (length ips) ip = None)"
    by (simp add: sched_unfold split: option.splits)
  then show ?case
    using snoc by (auto simp: nth_append less_Suc_eq)
qed

lemma looked_schedulePings: "looked (schedulePings f ips) = ips"
  by (induction ips rule: rev_induct) (auto simp: sched_unfold split: option.splits)

lemma usable_iff:
  "usable f i ip \<longleftrightarrow> (\<exists>cached. cacheFind f i ip = Some cached \<and> status cached = 0)"
  by (simp add: usable_def split: option.splits)

lemma pr_None_iff:
  "pr (schedulePings f ips) = None \<longleftrightarrow> (\<forall>i<length ips. \<not> usable f i (ips ! i))"
proof (induction ips rule: rev_induct)
  case Nil
  then show ?case by (simp add: sched_unfold)
next
  case (snoc ip ips)
  have "pr (schedulePings f (ips @ [ip])) = None \<longleftrightarrow>
      pr (schedulePings f ips) = None \<and> \<not> usable f (length ips) ip"
    by (auto simp: sched_unfold usable_def split: option.splits)
  then show ?case
    using snoc by (auto simp: nth_append less_Suc_eq)
qed

lemma best_at_snoc_keep:
  assumes "best_at f ips i"
    and "usable f (length ips) ip \<Longrightarrow>
           cachedLatency f i (ips ! i) \<le> cachedLatency f (length ips) ip"
  shows "best_at f (ips @ [ip]) i"
  using assms by (auto simp: best_at_def nth_append less_Suc_eq)

lemma best_at_snoc_new:
  assumes "usable f (length ips) ip"
    and "\<And>j. j < length ips \<Longrightarrow> usable f j (ips ! j) \<Longrightarrow>
           cachedLatency f (length ips) ip < cachedLatency f j (ips ! j)"
  shows "best_at f (ips @ [ip]) (length ips)"
  using assms by (auto simp: best_at_def nth_append less_Suc_eq intro: less_imp_le)

text \<open>The candidate the scan returns is the best cached candidate of the scan.\<close>

lemma pr_best:
  "pr (schedulePings f ips) = Some p \<Longrightarrow>
     \<exists>i. best_at f ips i \<and> p = candidate_of f i (ips ! i)"
proof (induction ips arbitrary: p rule: rev_induct)
  case Nil
  then show ?case by (simp add: schedulePings_Nil sched_init_def)
next
  case (snoc ip ips)
  let ?s = "schedulePings f ips"
  let ?n = "length ips"
  have new: "pr (schedule_one f ?n ip ?s) = Some p"
    using snoc.prems by (simp add: schedulePings_snoc)
  show ?case
  proof (cases "usable f ?n ip \<and>
      (case pr ?s of None \<Rightarrow> True | Some q \<Rightarrow> cachedLatency f ?n ip < latency q)")
    case True
    then have p: "p = candidate_of f ?n ip"
      using new
      by (auto simp: schedule_one_def usable_def candidate_of_def cachedLatency_def
            split: option.splits)
    have "best_at f (ips @ [ip]) ?n"
    proof (rule best_at_snoc_new)
      show "usable f ?n ip" using True by simp
    next
      fix j assume j: "j < length ips" "usable f j (ips ! j)"
      show "cachedLatency f ?n ip < cachedLatency f j (ips ! j)"
      proof (cases "pr ?s")
        case None
        then show ?thesis using j by (auto simp: pr_None_iff)
      next
        case (Some q)
        then obtain i where i: "best_at f ips i" "q = candidate_of f i (ips ! i)"
          using snoc.IH by blast
        have "cachedLatency f ?n ip < cachedLatency f i (ips ! i)"
          using True Some i by (simp add: candidate_of_def)
        moreover have "cachedLatency f i (ips ! i) \<le> cachedLatency f j (ips ! j)"
          using i j by (simp add: best_at_def)
        ultimately show ?thesis by simp
      qed
    qed
    then show ?thesis using p by auto
  next
    case False
    then have keep: "pr ?s = Some p"
      using new
      by (auto simp: schedule_one_def usable_def cachedLatency_def
            split: option.splits if_splits)
    then obtain i where i: "best_at f ips i" "p = candidate_of f i (ips ! i)"
      using snoc.IH by blast
    have "best_at f (ips @ [ip]) i"
    proof (rule best_at_snoc_keep [OF i(1)])
      assume "usable f ?n ip"
      then show "cachedLatency f i (ips ! i) \<le> cachedLatency f ?n ip"
        using False keep i by (simp add: candidate_of_def)
    qed
    moreover have "i < length ips" using i by (simp add: best_at_def)
    ultimately show ?thesis using i by (auto simp: nth_append)
  qed
qed

lemma pr_success: "pr (schedulePings f ips) = Some p \<Longrightarrow> success p"
  using pr_best [of f ips p] by (auto simp: candidate_of_def)

lemma length_started_le:
  "length (started (schedulePings f ips)) \<le> length ips * length (pingPorts f)"
  by (induction ips rule: rev_induct)
     (auto simp: sched_unfold split: option.splits)

text \<open>The goroutines number the lookups that found no entry, times the ports.\<close>

lemma length_started:
  "length (started (schedulePings f ips)) =
     length (filter (\<lambda>(i, ip). cacheFind f i ip = None) (enumerate 0 ips)) *
     length (pingPorts f)"
  by (induction ips rule: rev_induct)
     (auto simp: sched_unfold enumerate_append_eq split: option.splits)

section \<open>The arbiter and the top-level decision\<close>

lemma firstSuccessRes_success:
  "firstSuccessRes evs = Returned (Some r) \<Longrightarrow> success r"
  by (induction evs rule: firstSuccessRes.induct) (auto split: if_splits)

lemma firstSuccessRes_skip:
  "\<forall>r\<in>set fs. \<not> success r \<Longrightarrow> firstSuccessRes (map Recv fs @ evs) = firstSuccessRes evs"
  by (induction fs) simp_all

lemma short_list: "\<not> 2 \<le> length ips \<Longrightarrow> ips = [] \<or> (\<exists>a. ips = [a])"
  by (cases ips; cases "tl ips") auto

lemma pingAll_many:
  assumes "2 \<le> length ips"
  shows "pingAll f ips evs =
     (if \<not> scheduled (schedulePings f ips)
      then \<lparr>ret = Returned (pr (schedulePings f ips)),
            goroutines = started (schedulePings f ips), lookups = looked (schedulePings f ips),
            resChCap = Some (length ips * length (pingPorts f)), waited = False\<rparr>
      else \<lparr>ret = merge_live (firstSuccessRes evs) (pr (schedulePings f ips)),
            goroutines = started (schedulePings f ips), lookups = looked (schedulePings f ips),
            resChCap = Some (length ips * length (pingPorts f)), waited = True\<rparr>)"
proof -
  obtain a b rest where "ips = a # b # rest"
    using assms by (cases ips; cases "tl ips") auto
  then show ?thesis
    by (simp add: pingAll_def Let_def merge_live_def)
qed

lemma waited_iff:
  "waited (pingAll f ips evs) \<longleftrightarrow>
     2 \<le> length ips \<and> (\<exists>i<length ips. cacheFind f i (ips ! i) = None)"
proof (cases "2 \<le> length ips")
  case True
  then show ?thesis by (simp add: pingAll_many scheduled_schedulePings)
next
  case False
  then show ?thesis using short_list [OF False] by (auto simp: pingAll_def)
qed

lemma goroutines_many:
  "2 \<le> length ips \<Longrightarrow> goroutines (pingAll f ips evs) = started (schedulePings f ips)"
  by (simp add: pingAll_many)

lemma goroutines_short:
  "\<not> 2 \<le> length ips \<Longrightarrow> goroutines (pingAll f ips evs) = []"
  using short_list [of ips] by (auto simp: pingAll_def)

lemma goroutines_le_capacity:
  "length (goroutines (pingAll f ips evs)) \<le> capacity (pingAll f ips evs)"
proof (cases "2 \<le> length ips")
  case True
  then show ?thesis by (simp add: pingAll_many capacity_def length_started_le)
next
  case False
  then show ?thesis by (simp add: goroutines_short)
qed

section \<open>The probe worker\<close>

lemma sdiv_nonneg: "0 \<le> k \<Longrightarrow> k sdiv (1000000::int) = k div 1000000"
  by (cases "k = 0") (simp_all add: signed_divide_int_def)

lemma Milliseconds_floor:
  assumes "0 \<le> sint d"
  shows "uint (Milliseconds d) = sint d div 1000000"
proof -
  have lt: "sint d < 2 ^ 63" using sint_lt [of d] by simp
  have "0 \<le> sint d div 1000000" using assms by simp
  moreover have "sint d div 1000000 \<le> sint d"
    using assms by (cases "sint d = 0") (auto intro: order_less_imp_le int_div_less_self)
  ultimately have "sint d div 1000000 mod 2 ^ 64 = sint d div 1000000"
    using lt by simp
  then show ?thesis
    using assms by (simp add: Milliseconds_def sdiv_nonneg uint_word_of_int)
qed

lemma pingDoTCP_sends:
  "filter is_send (pingDoTCP U ap ok el) =
     [Send \<lparr>addrPort = ap, latency = Milliseconds el, success = ok\<rparr>]"
  by (simp add: pingDoTCP_def Let_def)

lemma pingDoTCP_caches:
  "filter is_cache (pingDoTCP U ap ok el) =
     [if ok then CacheAddSuccessful (U (Addr ap)) (Milliseconds el)
      else CacheAddFailure (U (Addr ap))]"
  by (simp add: pingDoTCP_def Let_def)

lemma sends_enumerate:
  "length (filter is_send (concat (map (\<lambda>(i, ap). pingDoTCP U ap (fst (dial i)) (snd (dial i)))
      (enumerate n aps)))) = length aps"
  by (induction aps arbitrary: n) (simp_all add: pingDoTCP_sends)

lemma caches_enumerate:
  "filter is_cache (concat (map (\<lambda>(i, ap). pingDoTCP U ap (fst (dial i)) (snd (dial i)))
      (enumerate n aps))) = map (cache_effect_of U dial) (enumerate n aps)"
  by (induction aps arbitrary: n) (simp_all add: pingDoTCP_caches cache_effect_of_def)

section \<open>The channel is never full for a worker\<close>

lemma concat_update_head:
  assumes "i < length ps" and "ps ! i = e # rest"
  shows "mset (concat ps) = add_mset e (mset (concat (ps[i := rest])))"
proof -
  have "ps = take i ps @ (e # rest) # drop (Suc i) ps"
    using assms by (metis id_take_nth_drop)
  moreover have "ps[i := rest] = take i ps @ rest # drop (Suc i) ps"
    using assms(1) by (rule upd_conv_take_nth_drop)
  ultimately have "mset (concat ps) = mset (concat (take i ps @ (e # rest) # drop (Suc i) ps))"
    and "mset (concat (ps[i := rest])) = mset (concat (take i ps @ rest # drop (Suc i) ps))"
    by simp_all
  then show ?thesis by simp
qed

lemma filter_concat_update_head:
  assumes "i < length ps" and "ps ! i = e # rest"
  shows "mset (filter P (concat ps)) =
         (if P e then {#e#} else {#}) + mset (filter P (concat (ps[i := rest])))"
proof -
  have "mset (filter P (concat ps)) = filter_mset P (mset (concat ps))" by simp
  also have "\<dots> = filter_mset P (add_mset e (mset (concat (ps[i := rest]))))"
    using concat_update_head [OF assms] by simp
  finally show ?thesis by simp
qed

lemma length_filter_concat_update_head:
  assumes "i < length ps" and "ps ! i = e # rest"
  shows "length (filter P (concat ps)) =
         (if P e then 1 else 0) + length (filter P (concat (ps[i := rest])))"
proof -
  have "length (filter P (concat ps)) = size (mset (filter P (concat ps)))"
    by (simp only: size_mset)
  also have "\<dots> = size ((if P e then {#e#} else {#}) + mset (filter P (concat (ps[i := rest]))))"
    by (simp only: filter_concat_update_head [OF assms, of P])
  also have "\<dots> = (if P e then 1 else 0) + size (mset (filter P (concat (ps[i := rest]))))"
    by simp
  finally show ?thesis by (simp only: size_mset)
qed

lemma chan_inv_worker_step:
  assumes "worker_step cap s s'" and "chan_inv cap C s"
  shows "chan_inv cap C s'"
  using assms
proof (induction rule: worker_step.induct)
  case (run i s e rest)
  note sends = length_filter_concat_update_head [OF run(1,2), of is_send]
  note caches = filter_concat_update_head [OF run(1,2), of is_cache]
  show ?case
  proof (cases e)
    case (Send r)
    then show ?thesis using run sends caches by (simp add: chan_inv_def)
  next
    case (CacheAddSuccessful a l)
    then show ?thesis using run sends caches by (simp add: chan_inv_def)
  next
    case (CacheAddFailure a)
    then show ?thesis using run sends caches by (simp add: chan_inv_def)
  next
    case (Dial ap)
    then show ?thesis using run sends caches by (simp add: chan_inv_def)
  next
    case Close
    then show ?thesis using run sends caches by (simp add: chan_inv_def)
  qed
qed

lemma chan_inv_arbiter_step:
  assumes "arbiter_step s s'" and "chan_inv cap C s"
  shows "chan_inv cap C s'"
  using assms by (induction rule: arbiter_step.induct) (simp_all add: chan_inv_def)

lemma chan_inv_step:
  "step cap s s' \<Longrightarrow> chan_inv cap C s \<Longrightarrow> chan_inv cap C s'"
  by (auto simp: step_def intro: chan_inv_worker_step chan_inv_arbiter_step)

lemma chan_inv_reachable:
  assumes "reachable cap s0 s" and "chan_inv cap C s0"
  shows "chan_inv cap C s"
  using assms unfolding reachable_def
  by (induction rule: rtranclp_induct) (auto intro: chan_inv_step)

lemma chan_inv_workers_reach:
  assumes "workers_reach cap s0 s" and "chan_inv cap C s0"
  shows "chan_inv cap C s"
  using assms unfolding workers_reach_def
  by (induction rule: rtranclp_induct) (auto intro: chan_inv_worker_step)

lemma chan_inv_not_blocked:
  assumes "chan_inv cap C s"
  shows "\<not> blocked cap s i"
proof
  assume b: "blocked cap s i"
  then obtain e rest where i: "i < length (procs s)" "procs s ! i = e # rest" "\<not> can_run cap s e"
    by (auto simp: blocked_def split: list.splits)
  then obtain r where e: "e = Send r" by (cases e) auto
  have "length (filter is_send (concat (procs s))) \<ge> 1"
    using length_filter_concat_update_head [OF i(1,2), of is_send] e by simp
  then have "length (resCh s) < cap" using assms by (simp add: chan_inv_def)
  then show False using i(3) e by simp
qed

lemma perform_listening: "listening (perform e s) = listening s"
  by (cases e) simp_all

lemma finished_no_effects: "finished s \<Longrightarrow> concat (procs s) = []"
  by (simp add: finished_def list_all_iff)

text \<open>The workers can always run to their ends by themselves.\<close>

lemma run_to_completion:
  assumes "chan_inv cap C s"
  shows "\<exists>s'. workers_reach cap s s' \<and> finished s' \<and> listening s' = listening s"
  using assms
proof (induction "length (concat (procs s))" arbitrary: s)
  case 0
  then have "finished s" by (auto simp: finished_def list_all_iff)
  then show ?case by (auto simp: workers_reach_def)
next
  case (Suc n)
  have "concat (procs s) \<noteq> []"
  proof
    assume "concat (procs s) = []"
    then have "length (concat (procs s)) = 0" by (simp only: list.size)
    then show False using Suc.hyps(2) by arith
  qed
  then obtain p where "p \<in> set (procs s)" "p \<noteq> []" by auto
  then obtain i e rest where i: "i < length (procs s)" "procs s ! i = e # rest"
    by (metis in_set_conv_nth neq_Nil_conv)
  have "\<not> blocked cap s i" using Suc.prems by (rule chan_inv_not_blocked)
  then have run: "can_run cap s e" using i by (simp add: blocked_def)
  let ?s1 = "(perform e s)\<lparr>procs := (procs s)[i := rest]\<rparr>"
  have st: "worker_step cap s ?s1" using i run by (rule worker_step.run)
  then have inv1: "chan_inv cap C ?s1" using Suc.prems by (rule chan_inv_worker_step)
  have "length (concat (procs s)) = Suc (length (concat ((procs s)[i := rest])))"
    using concat_update_head [OF i] by (metis size_mset size_add_mset)
  then have "n = length (concat (procs ?s1))" using Suc(2) by simp
  then obtain s' where s': "workers_reach cap ?s1 s'" "finished s'" "listening s' = listening ?s1"
    using Suc(1) inv1 by blast
  have "workers_reach cap s s'"
    using st s'(1) unfolding workers_reach_def by (rule converse_rtranclp_into_rtranclp)
  then show ?case using s' by (auto simp: perform_listening)
qed

text \<open>The invariant holds when \<open>pingAll\<close> has set the system up.\<close>

lemma chan_inv_init:
  "chan_inv (capacity (pingAll f ips evs))
     (mset (map (cache_effect_of U dial) (enumerate 0 (goroutines (pingAll f ips evs)))))
     (sys_init U dial (pingAll f ips evs))"
  using goroutines_le_capacity [of f ips evs]
  by (simp add: chan_inv_def sys_init_def worker_progs_def sends_enumerate caches_enumerate)

section \<open>Running the example\<close>

lemmas ex_simps = fa_example_def schedulePings_def sched_init_def schedule_one_def
  AddrPortFrom_def pingAll_def Let_def

lemma Milliseconds_examples:
  "Milliseconds 4000000000 = 4000" "Milliseconds 30999999 = 30"
  by (simp_all add: Milliseconds_def signed_divide_int_def)

lemma sys_init_example:
  "sys_init id dial_example (pingAll fa_example [1, 2] []) =
     \<lparr>resCh = [],
      procs = [[Dial (2, 80), Send \<lparr>addrPort = (2, 80), latency = 4000, success = False\<rparr>,
                CacheAddFailure 2],
               [Dial (2, 443), Close, Send \<lparr>addrPort = (2, 443), latency = 30, success = True\<rparr>,
                CacheAddSuccessful 2 30]],
      cacheLog = [], listening = True\<rparr>"
  by (simp add: ex_simps sys_init_def worker_progs_def pingDoTCP_def dial_example_def
        Milliseconds_examples Addr_def)

lemma capacity_example: "capacity (pingAll fa_example [1, 2] []) = 4"
  by (simp add: ex_simps capacity_def)

lemma reachable_worker:
  assumes "reachable cap s0 s" and "i < length (procs s)" and "procs s ! i = e # rest"
    and "can_run cap s e" and "s' = (perform e s)\<lparr>procs := (procs s)[i := rest]\<rparr>"
  shows "reachable cap s0 s'"
proof -
  have "step cap s s'"
    using worker_step.run [OF assms(2-4)] assms(5) by (simp add: step_def)
  then show ?thesis
    using assms(1) unfolding reachable_def by (rule rtranclp.rtrancl_into_rtrancl [rotated])
qed

lemma reachable_timeout:
  assumes "reachable cap s0 s" and "listening s" and "s' = s\<lparr>listening := False\<rparr>"
  shows "reachable cap s0 s'"
proof -
  have "step cap s s'"
    using arbiter_step.timeout [OF assms(2)] assms(3) by (simp add: step_def)
  then show ?thesis
    using assms(1) unfolding reachable_def by (rule rtranclp.rtrancl_into_rtrancl [rotated])
qed

lemma sys_example_reachable:
  "reachable 4 (sys_init id dial_example (pingAll fa_example [1, 2] [])) sys_example"
proof -
  let ?r0 = "\<lparr>addrPort = (2::nat, 80::uint16), latency = 4000, success = False\<rparr>"
  let ?r1 = "\<lparr>addrPort = (2::nat, 443::uint16), latency = 30, success = True\<rparr>"
  let ?p0 = "[Dial (2, 80), Send ?r0, CacheAddFailure 2]"
  let ?p1 = "[Dial (2, 443), Close, Send ?r1, CacheAddSuccessful 2 30]"
  let ?S0 = "\<lparr>resCh = [], procs = [?p0, ?p1], cacheLog = [], listening = True\<rparr>"
  let ?S1 = "\<lparr>resCh = [], procs = [?p0, ?p1], cacheLog = [], listening = False\<rparr>"
  let ?S2 = "\<lparr>resCh = [], procs = [tl ?p0, ?p1], cacheLog = [], listening = False\<rparr>"
  let ?S3 = "\<lparr>resCh = [?r0], procs = [[CacheAddFailure 2], ?p1], cacheLog = [],
              listening = False\<rparr>"
  let ?S4 = "\<lparr>resCh = [?r0], procs = [[CacheAddFailure 2], tl ?p1], cacheLog = [],
              listening = False\<rparr>"
  have r0: "reachable 4 ?S0 ?S0" by (simp add: reachable_def)
  have r1: "reachable 4 ?S0 ?S1"
    by (rule reachable_timeout [OF r0]) simp_all
  have r2: "reachable 4 ?S0 ?S2"
    by (rule reachable_worker [OF r1, where i = 0 and e = "Dial (2, 80)"
          and rest = "[Send ?r0, CacheAddFailure 2]"]) simp_all
  have r3: "reachable 4 ?S0 ?S3"
    by (rule reachable_worker [OF r2, where i = 0 and e = "Send ?r0"
          and rest = "[CacheAddFailure 2]"]) simp_all
  have r4: "reachable 4 ?S0 ?S4"
    by (rule reachable_worker [OF r3, where i = 1 and e = "Dial (2, 443)"
          and rest = "[Close, Send ?r1, CacheAddSuccessful 2 30]"]) simp_all
  have r5: "reachable 4 ?S0 sys_example"
    by (rule reachable_worker [OF r4, where i = 1 and e = "Close"
          and rest = "[Send ?r1, CacheAddSuccessful 2 30]"]) (simp_all add: sys_example_def)
  then show ?thesis by (simp only: sys_init_example)
qed

section \<open>The claims\<close>




text \<open>
  C2.  An iteration whose lookup returns an entry with a failure status changes neither
  the candidate nor the scheduled flag and starts no goroutine, on any port.  When every
  lookup of the address in the scan returns such an entry, no goroutine of the scan or
  of \<open>pingAll\<close> is for that address, and the candidate returned is not that address.  An
  iteration whose lookup finds no entry leaves the candidate alone in the same way, but
  starts one goroutine per port.
\<close>

theorem schedulePings_failed_entry:
  assumes "cacheFind f i ip = Some cached" and "status cached \<noteq> 0"
  shows "schedule_one f i ip s = s\<lparr>looked := looked s @ [ip]\<rparr> \<and>
         ((\<forall>j<length ips. ips ! j = ip \<longrightarrow>
             (\<exists>c. cacheFind f j ip = Some c \<and> status c \<noteq> 0)) \<longrightarrow>
          (\<forall>ap\<in>set (started (schedulePings f ips)). Addr ap \<noteq> ip) \<and>
          (\<forall>p. pr (schedulePings f ips) = Some p \<longrightarrow> Addr (addrPort p) \<noteq> ip) \<and>
          (\<forall>ap\<in>set (goroutines (pingAll f ips evs)). Addr ap \<noteq> ip)) \<and>
         (cacheFind f i' ip' = None \<longrightarrow>
            pr (schedule_one f i' ip' s) = pr s \<and>
            started (schedule_one f i' ip' s) =
              started s @ map (\<lambda>port. AddrPortFrom ip' (ucast port)) (pingPorts f))"
proof -
  have one: "schedule_one f i ip s = s\<lparr>looked := looked s @ [ip]\<rparr>"
    using assms by (simp add: schedule_one_def)
  have scan: "(\<forall>ap\<in>set (started (schedulePings f ips)). Addr ap \<noteq> ip) \<and>
          (\<forall>p. pr (schedulePings f ips) = Some p \<longrightarrow> Addr (addrPort p) \<noteq> ip) \<and>
          (\<forall>ap\<in>set (goroutines (pingAll f ips evs)). Addr ap \<noteq> ip)"
    if H: "\<forall>j<length ips. ips ! j = ip \<longrightarrow> (\<exists>c. cacheFind f j ip = Some c \<and> status c \<noteq> 0)"
  proof -
    have st: "\<forall>ap\<in>set (started (schedulePings f ips)). Addr ap \<noteq> ip"
    proof
      fix ap assume "ap \<in> set (started (schedulePings f ips))"
      then obtain j where j: "j < length ips" "ap \<in> set (probes_for f j (ips ! j))"
        using started_iff by metis
      then have "cacheFind f j (ips ! j) = None" "Addr ap = ips ! j"
        by (auto simp: probes_for_def Addr_def AddrPortFrom_def split: option.splits)
      then show "Addr ap \<noteq> ip" using H j(1) by auto
    qed
    have cand: "\<forall>p. pr (schedulePings f ips) = Some p \<longrightarrow> Addr (addrPort p) \<noteq> ip"
    proof (intro allI impI)
      fix p assume "pr (schedulePings f ips) = Some p"
      then obtain j where j: "best_at f ips j" "p = candidate_of f j (ips ! j)"
        using pr_best by blast
      then have "j < length ips" "usable f j (ips ! j)" by (simp_all add: best_at_def)
      then have "ips ! j \<noteq> ip" using H by (auto simp: usable_iff)
      then show "Addr (addrPort p) \<noteq> ip"
        using j(2) by (simp add: candidate_of_def Addr_def AddrPortFrom_def)
    qed
    have go: "\<forall>ap\<in>set (goroutines (pingAll f ips evs)). Addr ap \<noteq> ip"
      using st by (cases "2 \<le> length ips") (simp_all add: goroutines_many goroutines_short)
    show ?thesis using st cand go by blast
  qed
  have absent: "cacheFind f i' ip' = None \<longrightarrow>
            pr (schedule_one f i' ip' s) = pr s \<and>
            started (schedule_one f i' ip' s) =
              started s @ map (\<lambda>port. AddrPortFrom ip' (ucast port)) (pingPorts f)"
    by (simp add: schedule_one_def)
  show ?thesis using one scan absent by blast
qed

theorem schedulePings_failed_entry_witness:
  "cacheFind fa_example 1 3 = Some \<lparr>status = 1, latencyMsec = 0\<rparr> \<and>
   status \<lparr>status = 1, latencyMsec = 0\<rparr> \<noteq> 0 \<and>
   schedule_one fa_example 1 3 (schedule_one fa_example 0 1 sched_init) =
     (schedule_one fa_example 0 1 sched_init)\<lparr>looked := [1, 3]\<rparr> \<and>
   started (schedulePings fa_example [1, 3, 2]) = [(2, 80), (2, 443)] \<and>
   pr (schedulePings fa_example [1, 3, 2]) =
     Some \<lparr>addrPort = (1, 0), latency = 50, success = True\<rparr> \<and>
   cacheFind fa_example 2 2 = None"
proof -
  have H: "\<forall>j<length [1, 3, 2 :: nat]. [1, 3, 2] ! j = (3::nat) \<longrightarrow>
      (\<exists>c. cacheFind fa_example j 3 = Some c \<and> status c \<noteq> 0)"
    by (simp add: fa_example_def)
  have "schedule_one fa_example 1 3 (schedule_one fa_example 0 1 sched_init) =
      (schedule_one fa_example 0 1 sched_init)
        \<lparr>looked := looked (schedule_one fa_example 0 1 sched_init) @ [3]\<rparr>"
    using schedulePings_failed_entry [of fa_example 1 3 "\<lparr>status = 1, latencyMsec = 0\<rparr>"
        "schedule_one fa_example 0 1 sched_init" "[1, 3, 2]" "[]" 2 2]
    by (simp add: fa_example_def)
  then have one: "schedule_one fa_example 1 3 (schedule_one fa_example 0 1 sched_init) =
      (schedule_one fa_example 0 1 sched_init)\<lparr>looked := [1, 3]\<rparr>"
    by (simp add: ex_simps)
  have rest: "cacheFind fa_example 1 3 = Some \<lparr>status = 1, latencyMsec = 0\<rparr> \<and>
      status \<lparr>status = 1, latencyMsec = 0\<rparr> \<noteq> 0 \<and>
      started (schedulePings fa_example [1, 3, 2]) = [(2, 80), (2, 443)] \<and>
      pr (schedulePings fa_example [1, 3, 2]) =
        Some \<lparr>addrPort = (1, 0), latency = 50, success = True\<rparr> \<and>
      cacheFind fa_example 2 2 = None"
    by (simp add: ex_simps)
  show ?thesis using one rest H by blast
qed

text \<open>
  C3.  When \<open>pingAll\<close> has called the arbiter and the arbiter yields a fresh result: with
  no cached candidate the fresh result is returned; with a candidate, the fresh result
  is returned when its latency is at most the candidate's, the candidate otherwise.
\<close>

theorem pingAll_live_vs_cached:
  assumes "waited (pingAll f ips evs)" and "firstSuccessRes evs = Returned (Some res)"
  shows "ret (pingAll f ips evs) =
           (case pr (schedulePings f ips) of
              None \<Rightarrow> Returned (Some res)
            | Some p \<Rightarrow>
                if latency res \<le> latency p then Returned (Some res) else Returned (Some p))"
proof -
  have "2 \<le> length ips" "scheduled (schedulePings f ips)"
    using assms(1) by (simp_all add: waited_iff scheduled_schedulePings)
  then show ?thesis using assms(2) by (simp add: pingAll_many merge_live_def)
qed

theorem pingAll_live_vs_cached_witness:
  "waited (pingAll fa_example [1, 2]
     [Recv \<lparr>addrPort = (2, 443), latency = 30, success = True\<rparr>]) \<and>
   firstSuccessRes [Recv \<lparr>addrPort = (2::nat, 443), latency = 30, success = True\<rparr>] =
     Returned (Some \<lparr>addrPort = (2, 443), latency = 30, success = True\<rparr>) \<and>
   ret (pingAll fa_example [1, 2] [Recv \<lparr>addrPort = (2, 443), latency = 30, success = True\<rparr>]) =
     Returned (Some \<lparr>addrPort = (2, 443), latency = 30, success = True\<rparr>)"
  using pingAll_live_vs_cached [of fa_example "[1, 2]"
      "[Recv \<lparr>addrPort = (2, 443), latency = 30, success = True\<rparr>]"
      "\<lparr>addrPort = (2, 443), latency = 30, success = True\<rparr>"]
  by (simp add: ex_simps)

text \<open>
  C4.  When \<open>pingAll\<close> has called the arbiter and the arbiter returns nil, \<open>pingAll\<close>
  returns the candidate of the cache scan, which is nil when the scan found none.  The
  call returns; no error value exists in the result type.
\<close>

theorem pingAll_timeout_returns_cached:
  assumes "waited (pingAll f ips evs)" and "firstSuccessRes evs = Returned None"
  shows "ret (pingAll f ips evs) = Returned (pr (schedulePings f ips))"
proof -
  have "2 \<le> length ips" "scheduled (schedulePings f ips)"
    using assms(1) by (simp_all add: waited_iff scheduled_schedulePings)
  then show ?thesis using assms(2) by (simp add: pingAll_many merge_live_def)
qed

theorem pingAll_timeout_returns_cached_witness:
  "waited (pingAll fa_example [1, 2]
     [Recv \<lparr>addrPort = (2, 80), latency = 4000, success = False\<rparr>, After]) \<and>
   firstSuccessRes [Recv \<lparr>addrPort = (2::nat, 80), latency = 4000, success = False\<rparr>, After] =
     Returned None \<and>
   ret (pingAll fa_example [1, 2]
     [Recv \<lparr>addrPort = (2, 80), latency = 4000, success = False\<rparr>, After]) =
     Returned (Some \<lparr>addrPort = (1, 0), latency = 50, success = True\<rparr>)"
  using pingAll_timeout_returns_cached [of fa_example "[1, 2]"
      "[Recv \<lparr>addrPort = (2, 80), latency = 4000, success = False\<rparr>, After]"]
  by (simp add: ex_simps)

text \<open>
  C5.  A list of at least two addresses whose lookups all find a success entry:
  \<open>pingAll\<close> starts no goroutine, does not call the arbiter, and returns the address at
  the first position whose cached latency is minimal, with that latency.
\<close>

theorem pingAll_all_cached_first_min:
  assumes "2 \<le> length ips" and "\<forall>i<length ips. usable f i (ips ! i)"
  shows "goroutines (pingAll f ips evs) = [] \<and> \<not> waited (pingAll f ips evs) \<and>
         (\<exists>i<length ips.
            ret (pingAll f ips evs) =
              Returned (Some \<lparr>addrPort = AddrPortFrom (ips ! i) 0,
                               latency = cachedLatency f i (ips ! i), success = True\<rparr>) \<and>
            (\<forall>j<length ips. cachedLatency f i (ips ! i) \<le> cachedLatency f j (ips ! j)) \<and>
            (\<forall>j<i. cachedLatency f i (ips ! i) < cachedLatency f j (ips ! j)))"
proof -
  have none: "\<forall>i<length ips. cacheFind f i (ips ! i) \<noteq> None"
    using assms(2) by (auto simp: usable_iff)
  then have ns: "\<not> scheduled (schedulePings f ips)"
    by (simp add: scheduled_schedulePings)
  have "\<And>ap. ap \<notin> set (started (schedulePings f ips))"
    using none by (auto simp: started_iff probes_for_def split: option.splits)
  then have st: "started (schedulePings f ips) = []"
    by (cases "started (schedulePings f ips)") auto
  have "0 < length ips" using assms(1) by auto
  then have "pr (schedulePings f ips) \<noteq> None"
    using assms(2) by (auto simp: pr_None_iff)
  then obtain p where p: "pr (schedulePings f ips) = Some p" by auto
  then obtain i where i: "best_at f ips i" "p = candidate_of f i (ips ! i)"
    using pr_best by blast
  have "i < length ips" using i(1) by (simp add: best_at_def)
  moreover have "\<forall>j<length ips. cachedLatency f i (ips ! i) \<le> cachedLatency f j (ips ! j)"
    using i(1) assms(2) by (simp add: best_at_def)
  moreover have "\<forall>j<i. cachedLatency f i (ips ! i) < cachedLatency f j (ips ! j)"
    using i(1) assms(2) by (simp add: best_at_def)
  moreover have "ret (pingAll f ips evs) = Returned (Some (candidate_of f i (ips ! i)))"
    using assms(1) ns p i(2) by (simp add: pingAll_many)
  ultimately show ?thesis
    using assms(1) ns st by (auto simp: pingAll_many candidate_of_def)
qed

theorem pingAll_all_cached_first_min_witness:
  "2 \<le> length [1, 4, 5 :: nat] \<and>
   usable fa_example 0 1 \<and> usable fa_example 1 4 \<and> usable fa_example 2 5 \<and>
   goroutines (pingAll fa_example [1, 4, 5] []) = [] \<and>
   ret (pingAll fa_example [1, 4, 5] []) =
     Returned (Some \<lparr>addrPort = (4, 0), latency = 20, success = True\<rparr>)"
  using pingAll_all_cached_first_min [of "[1, 4, 5]" fa_example "[]"]
  by (simp add: ex_simps usable_def)

text \<open>
  C6.  The arbiter on the events its \<open>select\<close> takes: results whose success flag is false
  are dropped and the loop goes on; the first result whose flag is true is returned;
  the tick of the timer, coming before any success, makes it return nil; and as long as
  only failed results have come it has not returned.
\<close>

theorem firstSuccessRes_first_success:
  assumes "\<forall>r\<in>set fs. \<not> success r"
  shows "firstSuccessRes (map Recv fs @ evs) = firstSuccessRes evs \<and>
         (success r \<longrightarrow> firstSuccessRes (map Recv fs @ Recv r # evs) = Returned (Some r)) \<and>
         firstSuccessRes (map Recv fs @ After # evs) = Returned None \<and>
         firstSuccessRes (map Recv fs) = Waiting"
  using firstSuccessRes_skip [OF assms, of "[]"] by (simp add: firstSuccessRes_skip [OF assms])

theorem firstSuccessRes_first_success_witness:
  "\<not> success \<lparr>addrPort = (2::nat, 80::uint16), latency = 4000, success = False\<rparr> \<and>
   success \<lparr>addrPort = (2::nat, 443::uint16), latency = 30, success = True\<rparr> \<and>
   firstSuccessRes [Recv \<lparr>addrPort = (2::nat, 80), latency = 4000, success = False\<rparr>,
                    Recv \<lparr>addrPort = (2, 443), latency = 30, success = True\<rparr>, After] =
     Returned (Some \<lparr>addrPort = (2, 443), latency = 30, success = True\<rparr>) \<and>
   firstSuccessRes [Recv \<lparr>addrPort = (2::nat, 80), latency = 4000, success = False\<rparr>, After,
                    Recv \<lparr>addrPort = (2, 443), latency = 30, success = True\<rparr>] = Returned None"
  using firstSuccessRes_first_success
      [of "[\<lparr>addrPort = (2::nat, 80), latency = 4000, success = False\<rparr>]"
          "[After]" "\<lparr>addrPort = (2, 443), latency = 30, success = True\<rparr>"]
  by simp

text \<open>
  C7.  The worker makes exactly one cache update, after its send: \<open>cacheAddSuccessful\<close>
  with the latency when the dial succeeded, \<open>cacheAddFailure\<close> when it failed, on the
  unmapped address; the port has no part in it.  The latency is the elapsed time in
  whole milliseconds, rounded down (a duration measured by \<open>time.Since\<close> is not
  negative).  And in every state the goroutines of a call can reach, whatever the
  arbiter has done: each cache update is made or still ahead, and the workers can run to
  their ends with no step of the arbiter, the cache then holding the update of each.
\<close>

theorem pingDoTCP_cache_side_effect:
  "filter is_cache (pingDoTCP U (AddrPortFrom ip port) ok el) =
     [if ok then CacheAddSuccessful (U ip) (Milliseconds el) else CacheAddFailure (U ip)] \<and>
   (0 \<le> sint el \<longrightarrow> uint (Milliseconds el) = sint el div 1000000) \<and>
   (reachable (capacity (pingAll f ips evs)) (sys_init U dial (pingAll f ips evs)) s \<longrightarrow>
      mset (cacheLog s) + mset (filter is_cache (concat (procs s))) =
        mset (map (cache_effect_of U dial) (enumerate 0 (goroutines (pingAll f ips evs)))) \<and>
      (\<exists>s'. workers_reach (capacity (pingAll f ips evs)) s s' \<and> finished s' \<and>
            listening s' = listening s \<and>
            mset (cacheLog s') =
              mset (map (cache_effect_of U dial)
                (enumerate 0 (goroutines (pingAll f ips evs))))))"
proof -
  let ?c = "pingAll f ips evs"
  let ?C = "mset (map (cache_effect_of U dial) (enumerate 0 (goroutines ?c)))"
  have one: "filter is_cache (pingDoTCP U (AddrPortFrom ip port) ok el) =
     [if ok then CacheAddSuccessful (U ip) (Milliseconds el) else CacheAddFailure (U ip)]"
    by (simp add: pingDoTCP_caches Addr_def AddrPortFrom_def)
  have fl: "0 \<le> sint el \<longrightarrow> uint (Milliseconds el) = sint el div 1000000"
    by (simp add: Milliseconds_floor)
  have sys: "mset (cacheLog s) + mset (filter is_cache (concat (procs s))) = ?C \<and>
      (\<exists>s'. workers_reach (capacity ?c) s s' \<and> finished s' \<and> listening s' = listening s \<and>
            mset (cacheLog s') = ?C)"
    if re: "reachable (capacity ?c) (sys_init U dial ?c) s"
  proof -
    have inv: "chan_inv (capacity ?c) ?C s"
      using re chan_inv_init by (rule chan_inv_reachable)
    then obtain s' where s': "workers_reach (capacity ?c) s s'" "finished s'"
        "listening s' = listening s"
      using run_to_completion by blast
    have "chan_inv (capacity ?c) ?C s'"
      using s'(1) inv by (rule chan_inv_workers_reach)
    then have "mset (cacheLog s') = ?C"
      using finished_no_effects [OF s'(2)] by (simp add: chan_inv_def)
    then show ?thesis using inv s' by (auto simp: chan_inv_def)
  qed
  show ?thesis using one fl sys by blast
qed

theorem pingDoTCP_cache_side_effect_witness:
  "filter is_cache (pingDoTCP id (AddrPortFrom (2::nat) 443) True 30999999) =
     [CacheAddSuccessful 2 30] \<and>
   filter is_cache (pingDoTCP id (AddrPortFrom (2::nat) 80) False 4000000000) =
     [CacheAddFailure 2] \<and>
   0 \<le> sint (30999999 :: int64) \<and> uint (Milliseconds 30999999) = 30 \<and>
   reachable 4 (sys_init id dial_example (pingAll fa_example [1, 2] [])) sys_example \<and>
   (\<exists>s'. workers_reach 4 sys_example s' \<and> finished s' \<and> \<not> listening s' \<and>
         mset (cacheLog s') = {#CacheAddFailure 2, CacheAddSuccessful 2 30#})"
proof -
  let ?c = "pingAll fa_example [1, 2] []"
  have re: "reachable (capacity ?c) (sys_init id dial_example ?c) sys_example"
    using sys_example_reachable by (simp only: capacity_example)
  have goes: "goroutines ?c = [(2, 80), (2, 443)]"
    by (simp add: ex_simps)
  have expected: "mset (map (cache_effect_of id dial_example) (enumerate 0 (goroutines ?c))) =
      {#CacheAddFailure 2, CacheAddSuccessful 2 30#}"
    unfolding goes
    by (simp add: cache_effect_of_def dial_example_def Addr_def Milliseconds_examples)
  have "\<exists>s'. workers_reach (capacity ?c) sys_example s' \<and> finished s' \<and>
      listening s' = listening sys_example \<and>
      mset (cacheLog s') =
        mset (map (cache_effect_of id dial_example) (enumerate 0 (goroutines ?c)))"
    using pingDoTCP_cache_side_effect [of id 2 443 True 30999999 fa_example "[1, 2]" "[]"
        dial_example sys_example] re
    by blast
  then have run: "\<exists>s'. workers_reach 4 sys_example s' \<and> finished s' \<and> \<not> listening s' \<and>
      mset (cacheLog s') = {#CacheAddFailure 2, CacheAddSuccessful 2 30#}"
    unfolding capacity_example expected by (simp add: sys_example_def)
  have ok: "filter is_cache (pingDoTCP id (AddrPortFrom (2::nat) 443) True 30999999) =
      [CacheAddSuccessful 2 30]"
    by (simp add: pingDoTCP_caches Addr_def AddrPortFrom_def Milliseconds_examples)
  have ko: "filter is_cache (pingDoTCP id (AddrPortFrom (2::nat) 80) False 4000000000) =
      [CacheAddFailure 2]"
    by (simp add: pingDoTCP_caches Addr_def AddrPortFrom_def)
  have fl: "0 \<le> sint (30999999 :: int64) \<and> uint (Milliseconds 30999999) = 30"
    by (simp add: Milliseconds_examples)
  show ?thesis using ok ko fl sys_example_reachable run by blast
qed

text \<open>
  C8, as the code has it.  A worker sends exactly one result.  \<open>resCh\<close> is made with
  capacity \<open>len(ips) * len(f.pingPorts)\<close>, while the goroutines started number the
  lookups of the scan that found no entry, times \<open>len(f.pingPorts)\<close>: the capacity is
  at least the number of goroutines.  Hence in every state the goroutines of a call can
  reach, whatever the arbiter has done, no worker is blocked: the send of each goes
  through.
\<close>

theorem resCh_capacity_never_blocks:
  "length (filter is_send (pingDoTCP U ap ok el)) = 1 \<and>
   (2 \<le> length ips \<longrightarrow>
      resChCap (pingAll f ips evs) = Some (length ips * length (pingPorts f)) \<and>
      length (goroutines (pingAll f ips evs)) =
        length (filter (\<lambda>(i, ip). cacheFind f i ip = None) (enumerate 0 ips)) *
        length (pingPorts f)) \<and>
   length (goroutines (pingAll f ips evs)) \<le> capacity (pingAll f ips evs) \<and>
   (reachable (capacity (pingAll f ips evs)) (sys_init U dial (pingAll f ips evs)) s \<longrightarrow>
      \<not> blocked (capacity (pingAll f ips evs)) s i)"
proof -
  let ?c = "pingAll f ips evs"
  have one: "length (filter is_send (pingDoTCP U ap ok el)) = 1"
    by (simp add: pingDoTCP_sends)
  have cap: "2 \<le> length ips \<longrightarrow>
      resChCap ?c = Some (length ips * length (pingPorts f)) \<and>
      length (goroutines ?c) =
        length (filter (\<lambda>(i, ip). cacheFind f i ip = None) (enumerate 0 ips)) *
        length (pingPorts f)"
    by (simp add: pingAll_many length_started)
  have nb: "\<not> blocked (capacity ?c) s i"
    if re: "reachable (capacity ?c) (sys_init U dial ?c) s"
  proof -
    have "chan_inv (capacity ?c)
        (mset (map (cache_effect_of U dial) (enumerate 0 (goroutines ?c)))) s"
      using re chan_inv_init by (rule chan_inv_reachable)
    then show ?thesis by (rule chan_inv_not_blocked)
  qed
  show ?thesis using one cap goroutines_le_capacity [of f ips evs] nb by blast
qed

theorem resCh_capacity_never_blocks_witness:
  "2 \<le> length [1, 2 :: nat] \<and>
   reachable 4 (sys_init id dial_example (pingAll fa_example [1, 2] [])) sys_example \<and>
   \<not> listening sys_example \<and> length (resCh sys_example) = 1 \<and>
   hd (procs sys_example ! 1) = Send \<lparr>addrPort = (2, 443), latency = 30, success = True\<rparr> \<and>
   \<not> blocked 4 sys_example 1 \<and>
   resChCap (pingAll fa_racing [12, 16, 16] []) = Some 3 \<and>
   length (goroutines (pingAll fa_racing [12, 16, 16] [])) = 2"
proof -
  let ?c = "pingAll fa_example [1, 2] []"
  have re: "reachable (capacity ?c) (sys_init id dial_example ?c) sys_example"
    using sys_example_reachable by (simp only: capacity_example)
  have "\<not> blocked (capacity ?c) sys_example 1"
    using resCh_capacity_never_blocks [of id "(2, 443)" True 30999999 "[1, 2]" fa_example "[]"
        dial_example sys_example 1] re
    by blast
  then have nb: "\<not> blocked 4 sys_example 1"
    unfolding capacity_example .
  have rest: "2 \<le> length [1, 2 :: nat] \<and> \<not> listening sys_example \<and>
      length (resCh sys_example) = 1 \<and>
      hd (procs sys_example ! 1) = Send \<lparr>addrPort = (2, 443), latency = 30, success = True\<rparr>"
    by (simp add: sys_example_def)
  have racing: "resChCap (pingAll fa_racing [12, 16, 16] []) = Some 3 \<and>
      length (goroutines (pingAll fa_racing [12, 16, 16] [])) = 2"
    by (simp add: ex_simps fa_racing_def)
  show ?thesis using rest sys_example_reachable nb racing by blast
qed

text \<open>
  C8 as it is written fails: on addresses 1 and 2, of which only 2 is not in the cache,
  two goroutines are started, and the channel was made with capacity 4.
\<close>

theorem resCh_capacity_exceeds_probes:
  "resChCap (pingAll fa_example [1, 2] []) = Some 4 \<and>
   length (goroutines (pingAll fa_example [1, 2] [])) = 2"
  by (simp add: ex_simps)

text \<open>
  C9.  A list of one address: \<open>pingAll\<close> returns that address with port 0, the success
  flag set and the latency left at its zero value; it starts no goroutine (so nothing
  is dialed), makes no cache lookup and does not call the arbiter.  The empty list:
  it returns nil, and likewise starts nothing.
\<close>

theorem pingAll_short_lists:
  "(length ips = 1 \<longrightarrow>
      ret (pingAll f ips evs) =
        Returned (Some \<lparr>addrPort = AddrPortFrom (hd ips) 0, latency = 0, success = True\<rparr>) \<and>
      goroutines (pingAll f ips evs) = [] \<and> lookups (pingAll f ips evs) = [] \<and>
      \<not> waited (pingAll f ips evs)) \<and>
   (length ips = 0 \<longrightarrow>
      ret (pingAll f ips evs) = Returned None \<and> goroutines (pingAll f ips evs) = [] \<and>
      lookups (pingAll f ips evs) = [] \<and> \<not> waited (pingAll f ips evs))"
proof -
  have "length ips = 1 \<Longrightarrow> \<exists>a. ips = [a]" by (cases ips) auto
  then show ?thesis by (auto simp: pingAll_def)
qed

theorem pingAll_short_lists_witness:
  "length [2::nat] = 1 \<and>
   ret (pingAll fa_example [2] []) =
     Returned (Some \<lparr>addrPort = (2, 0), latency = 0, success = True\<rparr>) \<and>
   goroutines (pingAll fa_example [2] []) = [] \<and> lookups (pingAll fa_example [2] []) = [] \<and>
   length ([]::nat list) = 0 \<and> ret (pingAll fa_example [] []) = Returned None"
  using pingAll_short_lists [of "[2]" fa_example "[]"] pingAll_short_lists [of "[]" fa_example "[]"]
  by (simp add: ex_simps)

text \<open>
  C10.  Whatever \<open>pingAll\<close> returns, when it is not nil its success flag is set.
\<close>

theorem pingAll_result_success:
  assumes "ret (pingAll f ips evs) = Returned (Some r)"
  shows "success r"
proof (cases "2 \<le> length ips")
  case True
  show ?thesis
  proof (cases "scheduled (schedulePings f ips)")
    case False
    then show ?thesis using assms True by (simp add: pingAll_many pr_success)
  next
    case sch: True
    then have "merge_live (firstSuccessRes evs) (pr (schedulePings f ips)) = Returned (Some r)"
      using assms True by (simp add: pingAll_many)
    then show ?thesis
      by (auto simp: merge_live_def split: outcome.splits option.splits if_splits
            dest: firstSuccessRes_success pr_success)
  qed
next
  case False
  then show ?thesis using assms short_list [OF False] by (auto simp: pingAll_def)
qed

theorem pingAll_result_success_witness:
  "ret (pingAll fa_example [1, 3] []) =
     Returned (Some \<lparr>addrPort = (1, 0), latency = 50, success = True\<rparr>) \<and>
   success \<lparr>addrPort = (1::nat, 0::uint16), latency = 50, success = True\<rparr>"
  using pingAll_result_success [of fa_example "[1, 3]" "[]"
      "\<lparr>addrPort = (1, 0), latency = 50, success = True\<rparr>"]
  by (simp add: ex_simps)

end
